theory Spec2Isabelle
  imports Main "HOL-Library.Sublist"
begin

section \<open>Data model of \<^verbatim>\<open>myougiden_api.run\<close>\<close>

text \<open>
  A Python \<^verbatim>\<open>str\<close> is a sequence of Unicode code points; it is modelled as the list of
  its code points, so that queries in kana or kanji are values of the model as well.
\<close>

type_synonym pystr = "nat list"

definition ascii :: "string \<Rightarrow> pystr" where
  "ascii s = map of_char s"

text \<open>
  \<^verbatim>\<open>args.field\<close> is one of the strings \<^verbatim>\<open>'auto'\<close> (the default), \<^verbatim>\<open>'kanji'\<close>,
  \<^verbatim>\<open>'reading'\<close>, \<^verbatim>\<open>'gloss'\<close> (the \<^verbatim>\<open>store_const\<close> options \<^verbatim>\<open>-k -r -g\<close>);
  \<^verbatim>\<open>args.extent\<close> is restricted by \<^verbatim>\<open>choices\<close> to five strings.
\<close>

datatype fieldname = F_auto | F_kanji | F_reading | F_gloss

datatype extentname = E_whole | E_beginning | E_word | E_partial | E_auto

text \<open>
  A search condition is the dictionary \<^verbatim>\<open>search_args\<close>: the argument namespace cut down
  to the six keys \<^verbatim>\<open>field, query, extent, regexp, case_sensitive, frequent\<close>.
  The namespace itself extends it by the switches that steer the control flow of
  \<^verbatim>\<open>run\<close>.  (\<^verbatim>\<open>output_mode\<close> and \<^verbatim>\<open>color\<close> are overwritten with \<^verbatim>\<open>'tab'\<close> and
  \<^verbatim>\<open>'no'\<close> right after parsing, so the branches on them are dead and they are left out;
  \<^verbatim>\<open>out_romaji\<close> only reaches the formatter.)
\<close>

record cond =
  field :: fieldname
  query :: pystr
  extent :: extentname
  regexp :: bool
  case_sensitive :: bool
  frequent :: bool

record args = cond +
  version :: bool
  list_abbrevs :: bool
  abbrev :: "pystr option"

text \<open>
  The functions of \<^verbatim>\<open>myougiden.texttools\<close> and \<^verbatim>\<open>romkan\<close> that \<^verbatim>\<open>run\<close> calls are not
  part of this source file; they are parameters of the model, assumed pure and total.
\<close>

record lib =
  is_latin :: "pystr \<Rightarrow> bool"
  is_romaji :: "pystr \<Rightarrow> bool"
  is_kana :: "pystr \<Rightarrow> bool"
  has_regexp_special :: "pystr \<Rightarrow> bool"
  expand_romaji :: "pystr \<Rightarrow> pystr list"
  to_hiragana :: "pystr \<Rightarrow> pystr"
  to_katakana :: "pystr \<Rightarrow> pystr"

text \<open>The namespace as \<^verbatim>\<open>argparse\<close> fills it when no option is given.\<close>

definition default_args :: args where
  "default_args =
     \<lparr>field = F_auto, query = [], extent = E_auto, regexp = False, case_sensitive = False,
      frequent = False, version = False, list_abbrevs = False, abbrev = None\<rparr>"

section \<open>Query and case sensitivity (lines 121, 147--153)\<close>

text \<open>\<^verbatim>\<open>' '.join(args.query)\<close>: the pieces of the query separated by single spaces.\<close>

fun join_space :: "pystr list \<Rightarrow> pystr" where
  "join_space [] = []"
| "join_space [s] = s"
| "join_space (s # t # ts) = s @ [32] @ join_space (t # ts)"

definition set_query :: "args \<Rightarrow> pystr list \<Rightarrow> args" where
  "set_query a qs = a\<lparr>query := join_space qs\<rparr>"

text \<open>\<^verbatim>\<open>re.search("[A-Z]", s)\<close>: some code point of \<open>s\<close> lies between \<open>A\<close> (65) and \<open>Z\<close> (90).\<close>

definition has_upper :: "pystr \<Rightarrow> bool" where
  "has_upper s = (\<exists>c \<in> set s. 65 \<le> c \<and> c \<le> 90)"

definition handle_case :: "args \<Rightarrow> args" where
  "handle_case a =
     (if \<not> case_sensitive a then
        (if has_upper (query a) then a\<lparr>case_sensitive := True\<rparr> else a)
      else a)"

section \<open>Condition generation (lines 211--282)\<close>

text \<open>Lines 212--213: \<^verbatim>\<open>'word'\<close> is turned into \<^verbatim>\<open>'whole'\<close> for a pinned Japanese field.\<close>

definition normalize_extent :: "args \<Rightarrow> args" where
  "normalize_extent a =
     (if extent a = E_word \<and> (field a = F_kanji \<or> field a = F_reading)
      then a\<lparr>extent := E_whole\<rparr> else a)"

text \<open>Lines 218--222: the namespace as a dictionary, cut down to the six keys of a condition.\<close>

definition search_args :: "args \<Rightarrow> cond" where
  "search_args a = cond.truncate a"

text \<open>Lines 229--241.\<close>

definition fields_seq :: "lib \<Rightarrow> args \<Rightarrow> fieldname list" where
  "fields_seq l a =
     (if field a = F_auto then
        (if is_latin l (query a) then [F_gloss, F_reading, F_kanji]
         else if is_romaji l (query a) then [F_reading, F_gloss, F_kanji]
         else if is_kana l (query a) then [F_reading, F_kanji, F_gloss]
         else [F_kanji, F_reading, F_gloss])
      else [field a])"

text \<open>Lines 243--246.\<close>

definition extents :: "args \<Rightarrow> extentname list" where
  "extents a = (if extent a \<noteq> E_auto then [extent a] else [E_whole, E_word, E_partial])"

text \<open>Lines 248--253.\<close>

definition regexp_flags :: "lib \<Rightarrow> args \<Rightarrow> bool list" where
  "regexp_flags l a =
     (if regexp a then [True]
      else if has_regexp_special l (query a) then [False, True]
      else [False])"

text \<open>
  Lines 259--282, the body of the innermost loop: what one round appends to
  \<^verbatim>\<open>conditions\<close>, nothing after \<^verbatim>\<open>continue\<close> and one condition otherwise.
\<close>

definition loop_body :: "args \<Rightarrow> bool \<Rightarrow> extentname \<Rightarrow> fieldname \<Rightarrow> cond list" where
  "loop_body a rx e f =
     (if e = E_word \<and> f \<noteq> F_gloss then
        (if extent a = E_auto then []
         else [(search_args a)\<lparr>extent := E_whole, field := f, regexp := rx\<rparr>])
      else [(search_args a)\<lparr>extent := e, field := f, regexp := rx\<rparr>])"

text \<open>Line 258, the loop over the fields for one regexp flag and one extent.\<close>

definition field_loop :: "args \<Rightarrow> bool \<Rightarrow> extentname \<Rightarrow> fieldname list \<Rightarrow> cond list" where
  "field_loop a rx e fs = concat (map (loop_body a rx e) fs)"

text \<open>Line 257, the loop over the extents for one regexp flag.\<close>

definition extent_loop :: "lib \<Rightarrow> args \<Rightarrow> bool \<Rightarrow> cond list" where
  "extent_loop l a rx = concat (map (\<lambda>e. field_loop a rx e (fields_seq l a)) (extents a))"

text \<open>Lines 255--282: the outermost loop, over the regexp flags, fills \<^verbatim>\<open>conditions\<close>.\<close>

definition conditions :: "lib \<Rightarrow> args \<Rightarrow> cond list" where
  "conditions l a = concat (map (extent_loop l a) (regexp_flags l a))"

section \<open>Kana guesses for romaji queries (lines 284--305)\<close>

datatype error = ValueError

text \<open>\<^verbatim>\<open>list.index(x)\<close>: the first position holding a value equal to \<open>x\<close>; \<^verbatim>\<open>ValueError\<close> if there is none.\<close>

fun index :: "'a list \<Rightarrow> 'a \<Rightarrow> error + nat" where
  "index [] x = Inl ValueError"
| "index (y # ys) x =
     (if y = x then Inr 0
      else (case index ys x of Inl e \<Rightarrow> Inl e | Inr i \<Rightarrow> Inr (Suc i)))"

text \<open>\<^verbatim>\<open>list.insert(i, x)\<close> for \<open>i \<ge> 0\<close>: \<open>x\<close> goes before position \<open>i\<close>, or to the end.\<close>

definition insert_at :: "nat \<Rightarrow> 'a \<Rightarrow> 'a list \<Rightarrow> 'a list" where
  "insert_at i x xs = take i xs @ x # drop i xs"

text \<open>Lines 287--290.\<close>

definition kana_guess :: "lib \<Rightarrow> args \<Rightarrow> (pystr \<Rightarrow> pystr) list" where
  "kana_guess l a =
     (if has_upper (query a) then [to_katakana l, to_hiragana l]
      else [to_hiragana l, to_katakana l])"

text \<open>Lines 301--304: one copy of \<open>oldcond\<close> with the query replaced, put in front of \<open>oldcond\<close>.\<close>

definition insert_guess :: "cond \<Rightarrow> pystr \<Rightarrow> cond list \<Rightarrow> error + cond list" where
  "insert_guess oldcond kana new_conditions =
     (case index new_conditions oldcond of
        Inl e \<Rightarrow> Inl e
      | Inr i \<Rightarrow> Inr (insert_at i (oldcond\<lparr>query := kana\<rparr>) new_conditions))"

text \<open>Line 300, the loop over \<^verbatim>\<open>tt.expand_romaji(oldcond['query'])\<close>.\<close>

fun romaji_loop :: "(pystr \<Rightarrow> pystr) \<Rightarrow> cond \<Rightarrow> pystr list \<Rightarrow> cond list \<Rightarrow> error + cond list" where
  "romaji_loop kanafn oldcond [] new_conditions = Inr new_conditions"
| "romaji_loop kanafn oldcond (romaji # rest) new_conditions =
     (case insert_guess oldcond (kanafn romaji) new_conditions of
        Inl e \<Rightarrow> Inl e
      | Inr new_conditions' \<Rightarrow> romaji_loop kanafn oldcond rest new_conditions')"

text \<open>Line 295, the loop over \<^verbatim>\<open>kana_guess\<close>.\<close>

fun kanafn_loop :: "lib \<Rightarrow> (pystr \<Rightarrow> pystr) list \<Rightarrow> cond \<Rightarrow> cond list \<Rightarrow> error + cond list" where
  "kanafn_loop l [] oldcond new_conditions = Inr new_conditions"
| "kanafn_loop l (kanafn # rest) oldcond new_conditions =
     (case romaji_loop kanafn oldcond (expand_romaji l (query oldcond)) new_conditions of
        Inl e \<Rightarrow> Inl e
      | Inr new_conditions' \<Rightarrow> kanafn_loop l rest oldcond new_conditions')"

text \<open>Line 293, the loop over the conditions generated so far.\<close>

fun oldcond_loop :: "lib \<Rightarrow> (pystr \<Rightarrow> pystr) list \<Rightarrow> cond list \<Rightarrow> cond list \<Rightarrow> error + cond list" where
  "oldcond_loop l kg [] new_conditions = Inr new_conditions"
| "oldcond_loop l kg (oldcond # rest) new_conditions =
     (if field oldcond = F_reading then
        (case kanafn_loop l kg oldcond new_conditions of
           Inl e \<Rightarrow> Inl e
         | Inr new_conditions' \<Rightarrow> oldcond_loop l kg rest new_conditions')
      else oldcond_loop l kg rest new_conditions)"

text \<open>Line 285, the test that guards the insertion of kana guesses.\<close>

definition romaji_query :: "lib \<Rightarrow> args \<Rightarrow> bool" where
  "romaji_query l a \<longleftrightarrow> (field a = F_auto \<or> field a = F_reading) \<and> is_romaji l (query a)"

text \<open>Lines 285--305.\<close>

definition romaji_conditions :: "lib \<Rightarrow> args \<Rightarrow> cond list \<Rightarrow> error + cond list" where
  "romaji_conditions l a conds =
     (if romaji_query l a
      then oldcond_loop l (kana_guess l a) conds conds
      else Inr conds)"

text \<open>Lines 211--305 together: the list handed to \<^verbatim>\<open>search.guess\<close>.\<close>

definition final_conditions :: "lib \<Rightarrow> args \<Rightarrow> error + cond list" where
  "final_conditions l a =
     romaji_conditions l (normalize_extent a) (conditions l (normalize_extent a))"

section \<open>The match cascade and the result of \<^verbatim>\<open>run\<close> (lines 154--209, 308--340)\<close>

text \<open>
  Modelled from the spec: \<^verbatim>\<open>search.guess\<close>, called at line 308, is a function of the
  package \<^verbatim>\<open>myougiden\<close> and not of this source file.  Section 4.4 of the specification:
  it iterates the list strictly in order; for each condition it invokes the external
  matcher with that single condition; if the returned identifier set is non-empty it
  stops and returns that condition and that identifier set; if the list is exhausted
  with no non-empty result it returns none and the empty sequence; a matcher failure
  propagates and aborts the cascade.  The first component of the result logs the
  conditions on which the matcher was invoked, in the order of the calls.
\<close>

fun guess :: "(cond \<Rightarrow> 'e + 'i list) \<Rightarrow> cond list \<Rightarrow> cond list \<times> ('e + cond option \<times> 'i list)" where
  "guess matcher [] = ([], Inr (None, []))"
| "guess matcher (c # cs) =
     (case matcher c of
        Inl e \<Rightarrow> ([c], Inl e)
      | Inr ids \<Rightarrow>
          if ids \<noteq> [] then ([c], Inr (Some c, ids))
          else (case guess matcher cs of (calls, r) \<Rightarrow> (c # calls, r)))"

text \<open>
  What \<^verbatim>\<open>run\<close> meets outside this file: whether \<^verbatim>\<open>config\<close> was found, whether
  \<^verbatim>\<open>database.opendb\<close> succeeds for the given case sensitivity, the call
  \<^verbatim>\<open>search.guess(cur, conditions)\<close> (an exception of it is \<open>Inl\<close>), the line that
  \<^verbatim>\<open>fetch_entry\<close> and \<^verbatim>\<open>format_tsv\<close> produce for an entry, and lines 327--336, which
  hand the output to a pager on a terminal: \<open>None\<close> when control reaches \<^verbatim>\<open>return out\<close>.
  What \<^verbatim>\<open>run\<close> prints is not modelled.
\<close>

datatype 'e outcome = Exit nat | Raised "error + 'e" | Returned "pystr list option"

record ('e, 'i) env =
  config_found :: bool
  opendb_ok :: "bool \<Rightarrow> bool"
  search_guess :: "cond list \<Rightarrow> 'e + cond option \<times> 'i list"
  format_tsv :: "cond \<Rightarrow> 'i \<Rightarrow> pystr"
  pager :: "pystr list \<Rightarrow> 'e outcome option"

text \<open>The truth value of \<^verbatim>\<open>args.abbrev\<close>: \<^verbatim>\<open>None\<close> and the empty string are false.\<close>

definition truthy :: "pystr option \<Rightarrow> bool" where
  "truthy v = (case v of None \<Rightarrow> False | Some s \<Rightarrow> s \<noteq> [])"

text \<open>
  \<^verbatim>\<open>run(query)\<close>, with the namespace that \<^verbatim>\<open>parse_args\<close> returns as a further argument.
  \<^verbatim>\<open>sys.exit(n)\<close> is \<open>Exit n\<close>.
\<close>

definition run :: "lib \<Rightarrow> ('e, 'i) env \<Rightarrow> args \<Rightarrow> pystr list \<Rightarrow> 'e outcome" where
  "run l env parsed qs =
     (let a = handle_case (set_query parsed qs) in
      if \<not> config_found env then Exit 2
      else if \<not> opendb_ok env (case_sensitive a) then Exit 2
      else if version a then Exit 0
      else if list_abbrevs a then Exit 0
      else if truthy (abbrev a) then Exit 0
      else if query a = [] then Exit 2
      else
        (case final_conditions l a of
           Inl e \<Rightarrow> Raised (Inl e)
         | Inr conds \<Rightarrow>
             (case search_guess env conds of
                Inl e \<Rightarrow> Raised (Inr e)
              | Inr (chosen_search, ent_seqs) \<Rightarrow>
                  (case chosen_search of
                     Some c \<Rightarrow>
                       (let out = map (format_tsv env c) ent_seqs
                        in case pager env out of Some r \<Rightarrow> r | None \<Rightarrow> Returned (Some out))
                   | None \<Rightarrow> Returned None))))"

section \<open>Closed form of the insertion loops\<close>

text \<open>
  The kana strings in the order in which the loops of lines 295 and 300 produce them, and
  what the loops leave in the place of one condition: in front of a reading condition
  its copies with a kana query, then the copies whose query came back unchanged (equal
  to the condition, so each later insertion goes in front of them), then the condition.
\<close>

definition kana_strings :: "lib \<Rightarrow> (pystr \<Rightarrow> pystr) list \<Rightarrow> pystr \<Rightarrow> pystr list" where
  "kana_strings l kg q = concat (map (\<lambda>kanafn. map kanafn (expand_romaji l q)) kg)"

definition block :: "pystr list \<Rightarrow> cond \<Rightarrow> cond list" where
  "block ks c =
     (if field c = F_reading
      then map (\<lambda>k. c\<lparr>query := k\<rparr>) (filter (\<lambda>k. k \<noteq> query c) ks)
           @ replicate (length (filter (\<lambda>k. k = query c) ks)) c @ [c]
      else [c])"

text \<open>The place of an extent in the tuple \<^verbatim>\<open>('whole', 'word', 'partial')\<close> of line 246.\<close>

definition auto_rank :: "extentname \<Rightarrow> nat" where
  "auto_rank e = (case e of E_whole \<Rightarrow> 0 | E_word \<Rightarrow> 1 | E_partial \<Rightarrow> 2 | _ \<Rightarrow> 3)"

text \<open>
  A stand-in for the external text tools, to evaluate the model on concrete queries:
  Latin is ASCII, romaji adds the vowels with macron or circumflex, kana is the range
  U+3040 to U+30FF, the special characters are those of Python's \<^verbatim>\<open>re\<close>, a
  transliteration has itself as its only expansion, and the two kana functions shift
  the letters \<open>a\<close> to \<open>z\<close> into the hiragana and the katakana block.
\<close>

definition macrons :: "nat list" where
  "macrons = [257, 275, 299, 333, 363, 226, 234, 238, 244, 251,
              256, 274, 298, 332, 362, 194, 202, 206, 212, 219]"

definition stub_lib :: lib where
  "stub_lib =
     \<lparr>is_latin = (\<lambda>s. \<forall>c \<in> set s. c < 128),
      is_romaji = (\<lambda>s. \<forall>c \<in> set s. c < 128 \<or> c \<in> set macrons),
      is_kana = (\<lambda>s. \<forall>c \<in> set s. 12352 \<le> c \<and> c \<le> 12543),
      has_regexp_special = (\<lambda>s. \<exists>c \<in> set s. c \<in> set (ascii ''.^$*+?{}[]|()'') \<or> c = 92),
      expand_romaji = (\<lambda>s. [s]),
      to_hiragana = map (\<lambda>c. if 97 \<le> c \<and> c \<le> 122 then c + 12256 else c),
      to_katakana = map (\<lambda>c. if 97 \<le> c \<and> c \<le> 122 then c + 12352 else c)\<rparr>"

text \<open>
  The query \<^verbatim>\<open>Osaka\<close> written with U+014C, the Latin capital letter O with macron, as
  its first letter.
\<close>

definition osaka_macron :: pystr where
  "osaka_macron = [332, 115, 97, 107, 97]"

text \<open>An environment in which everything is in place and nothing matches.\<close>

definition stub_env :: "(unit, nat) env" where
  "stub_env =
     \<lparr>config_found = True, opendb_ok = (\<lambda>cs. True),
      search_guess = (\<lambda>conds. Inr (None, [])),
      format_tsv = (\<lambda>c i. []), pager = (\<lambda>out. None)\<rparr>"

section \<open>The generated conditions and the insertion loops\<close>

lemma conditions_query: "c \<in> set (conditions l a) \<Longrightarrow> query c = query a"
  by (auto simp: conditions_def extent_loop_def field_loop_def loop_body_def search_args_def cond.truncate_def split: if_splits)

lemma distinct_key: "distinct (map (\<lambda>c. (regexp c, extent c, field c)) (conditions l a))"
  by (cases "extent a"; cases "field a")
     (simp_all add: conditions_def extent_loop_def field_loop_def fields_seq_def extents_def regexp_flags_def loop_body_def)

lemma distinct_conditions: "distinct (conditions l a)"
  using distinct_key [of l a] by (simp add: distinct_map)

lemma index_first: "x \<notin> set pre \<Longrightarrow> index (pre @ x # post) x = Inr (length pre)"
  by (induction pre) auto

lemma insert_at_length: "insert_at (length pre) n (pre @ post) = pre @ n # post"
  by (simp add: insert_at_def)

lemma query_update_same:
  "(c\<lparr>query := k\<rparr> = c) = (k = query c)" "(c = c\<lparr>query := k\<rparr>) = (k = query c)" for c :: cond
  by (cases c; auto)+

lemma insert_guess_first:
  "oldcond \<notin> set pre \<Longrightarrow>
   insert_guess oldcond k (pre @ oldcond # post) = Inr (pre @ oldcond\<lparr>query := k\<rparr> # oldcond # post)"
  by (simp add: insert_guess_def index_first insert_at_length)

lemma romaji_loop_closed:
  "oldcond \<notin> set pre \<Longrightarrow>
   romaji_loop kanafn oldcond rs (pre @ oldcond # post) =
     Inr (pre @ map (\<lambda>k. oldcond\<lparr>query := k\<rparr>) (filter (\<lambda>k. k \<noteq> query oldcond) (map kanafn rs))
          @ oldcond # replicate (length (filter (\<lambda>k. k = query oldcond) (map kanafn rs))) oldcond @ post)"
proof (induction rs arbitrary: pre post)
  case Nil
  then show ?case by simp
next
  case (Cons r rs)
  show ?case
  proof (cases "kanafn r = query oldcond")
    case True
    then have same: "oldcond\<lparr>query := kanafn r\<rparr> = oldcond"
      by (simp add: query_update_same)
    have "romaji_loop kanafn oldcond (r # rs) (pre @ oldcond # post) =
          romaji_loop kanafn oldcond rs (pre @ oldcond # oldcond # post)"
      using Cons.prems by (simp add: insert_guess_first same)
    also have "\<dots> = Inr (pre @ map (\<lambda>k. oldcond\<lparr>query := k\<rparr>) (filter (\<lambda>k. k \<noteq> query oldcond) (map kanafn rs))
          @ oldcond # replicate (length (filter (\<lambda>k. k = query oldcond) (map kanafn rs))) oldcond @ oldcond # post)"
      using Cons.prems by (rule Cons.IH)
    finally show ?thesis using True
      by (simp add: replicate_app_Cons_same)
  next
    case False
    then have diff: "oldcond\<lparr>query := kanafn r\<rparr> \<noteq> oldcond"
      by (simp add: query_update_same)
    with Cons.prems have notin: "oldcond \<notin> set (pre @ [oldcond\<lparr>query := kanafn r\<rparr>])"
      by auto
    have "romaji_loop kanafn oldcond (r # rs) (pre @ oldcond # post) =
          romaji_loop kanafn oldcond rs ((pre @ [oldcond\<lparr>query := kanafn r\<rparr>]) @ oldcond # post)"
      using Cons.prems by (simp add: insert_guess_first)
    also note Cons.IH [OF notin]
    finally show ?thesis using False by simp
  qed
qed


lemma replicate_swap:
  "replicate m x @ replicate n x @ ys = replicate n x @ replicate m x @ ys"
proof -
  have "replicate m x @ replicate n x = replicate n x @ replicate m x"
    by (simp add: replicate_add [symmetric] add.commute)
  then show ?thesis by (metis append_assoc)
qed

lemma kanafn_loop_closed:
  "oldcond \<notin> set pre \<Longrightarrow>
   kanafn_loop l kg oldcond (pre @ oldcond # post) =
     Inr (pre @ map (\<lambda>k. oldcond\<lparr>query := k\<rparr>)
                  (filter (\<lambda>k. k \<noteq> query oldcond) (kana_strings l kg (query oldcond)))
          @ oldcond # replicate (length (filter (\<lambda>k. k = query oldcond)
                                   (kana_strings l kg (query oldcond)))) oldcond @ post)"
proof (induction kg arbitrary: pre post)
  case Nil
  then show ?case by (simp add: kana_strings_def)
next
  case (Cons kanafn kg)
  let ?ks = "map kanafn (expand_romaji l (query oldcond))"
  let ?pre = "pre @ map (\<lambda>k. oldcond\<lparr>query := k\<rparr>) (filter (\<lambda>k. k \<noteq> query oldcond) ?ks)"
  let ?post = "replicate (length (filter (\<lambda>k. k = query oldcond) ?ks)) oldcond @ post"
  have notin: "oldcond \<notin> set ?pre"
    using Cons.prems by (auto simp: query_update_same)
  have "kanafn_loop l (kanafn # kg) oldcond (pre @ oldcond # post) =
        kanafn_loop l kg oldcond (?pre @ oldcond # ?post)"
    using Cons.prems by (simp add: romaji_loop_closed)
  also note Cons.IH [OF notin]
  finally show ?case
    by (simp add: kana_strings_def replicate_add replicate_swap [of _ oldcond _ post])
qed

lemma block_disjoint:
  assumes "c \<noteq> oldcond" "query c = query oldcond"
  shows "c \<notin> set (block ks oldcond)"
proof
  assume "c \<in> set (block ks oldcond)"
  with assms(1) obtain k where "k \<noteq> query oldcond" "c = oldcond\<lparr>query := k\<rparr>"
    by (auto simp: block_def split: if_splits)
  with assms(2) show False by simp
qed

lemma oldcond_loop_closed:
  "distinct rest \<Longrightarrow> \<forall>c \<in> set rest. query c = q \<Longrightarrow> set rest \<inter> set pre = {} \<Longrightarrow>
   oldcond_loop l kg rest (pre @ rest) =
     Inr (pre @ concat (map (block (kana_strings l kg q)) rest))"
proof (induction rest arbitrary: pre)
  case Nil
  then show ?case by simp
next
  case (Cons oldcond rest)
  let ?b = "block (kana_strings l kg q) oldcond"
  from Cons.prems have notin: "oldcond \<notin> set pre" and q: "query oldcond = q"
    by auto
  have step: "oldcond_loop l kg (oldcond # rest) (pre @ oldcond # rest) =
              oldcond_loop l kg rest ((pre @ ?b) @ rest)"
  proof (cases "field oldcond = F_reading")
    case True
    with notin q show ?thesis
      by (simp add: kanafn_loop_closed block_def replicate_app_Cons_same)
  next
    case False
    then show ?thesis by (simp add: block_def)
  qed
  have "set rest \<inter> set ?b = {}"
  proof -
    have "c \<notin> set ?b" if "c \<in> set rest" for c
      using that Cons.prems(1,2) q by (intro block_disjoint) auto
    then show ?thesis by auto
  qed
  with Cons.prems have disj: "set rest \<inter> set (pre @ ?b) = {}"
    by auto
  from Cons.prems have "distinct rest" "\<forall>c \<in> set rest. query c = q"
    by auto
  from Cons.IH [OF this disj] step show ?case
    by simp
qed

lemma romaji_conditions_closed:
  assumes "distinct conds" "\<forall>c \<in> set conds. query c = query a"
    and "romaji_query l a"
  shows "romaji_conditions l a conds =
         Inr (concat (map (block (kana_strings l (kana_guess l a) (query a))) conds))"
  using oldcond_loop_closed [of conds "query a" "[]"] assms
  by (simp add: romaji_conditions_def)

lemma normalize_extent_simps [simp]:
  "query (normalize_extent a) = query a" "field (normalize_extent a) = field a"
  "regexp (normalize_extent a) = regexp a"
  "case_sensitive (normalize_extent a) = case_sensitive a"
  "frequent (normalize_extent a) = frequent a"
  by (simp_all add: normalize_extent_def)

lemma block_Nil: "block [] c = [c]"
  by (simp add: block_def)

lemma romaji_query_normalize [simp]: "romaji_query l (normalize_extent a) = romaji_query l a"
  by (simp add: romaji_query_def)

lemma final_conditions_closed:
  "final_conditions l a =
     Inr (concat (map (block (if romaji_query l a
                              then kana_strings l (kana_guess l (normalize_extent a)) (query a)
                              else []))
                      (conditions l (normalize_extent a))))"
proof (cases "romaji_query l a")
  case True
  then show ?thesis
    using romaji_conditions_closed [of "conditions l (normalize_extent a)" "normalize_extent a" l]
    by (simp add: final_conditions_def distinct_conditions conditions_query)
next
  case False
  have "concat (map (block []) cs) = cs" for cs
    by (induction cs) (simp_all add: block_Nil)
  with False show ?thesis
    by (simp add: final_conditions_def romaji_conditions_def)
qed

lemma in_block:
  "c' \<in> set (block ks c) \<Longrightarrow>
   field c' = field c \<and> extent c' = extent c \<and> regexp c' = regexp c \<and>
   case_sensitive c' = case_sensitive c \<and> frequent c' = frequent c"
  by (auto simp: block_def split: if_splits)

lemma block_last: "\<exists>pre. block ks c = pre @ [c]"
  by (cases "field c = F_reading") (simp_all add: block_def)

lemma subseq_blocks: "subseq cs (concat (map (block ks) cs))"
proof (induction cs)
  case Nil
  show ?case by simp
next
  case (Cons c cs)
  obtain pre where "block ks c = pre @ [c]"
    using block_last by blast
  then have "subseq [c] (block ks c)"
    by (simp add: list_emb_append2)
  from list_emb_append_mono [OF this Cons] show ?case by simp
qed

lemma concat_blocks_no_reading:
  "\<forall>c \<in> set cs. field c \<noteq> F_reading \<Longrightarrow> concat (map (block ks) cs) = cs"
  by (induction cs) (simp_all add: block_def)

lemma guess_all_empty:
  "\<forall>c \<in> set cs. matcher c = Inr [] \<Longrightarrow> guess matcher cs = (cs, Inr (None, []))"
  by (induction cs) simp_all

lemma guess_skip_empty:
  "\<forall>c \<in> set pre. matcher c = Inr [] \<Longrightarrow>
   guess matcher (pre @ cs) = (pre @ fst (guess matcher cs), snd (guess matcher cs))"
  by (induction pre) (simp_all add: split_beta)

section \<open>Order of the generated conditions\<close>

lemma sorted_wrt_all: "(\<forall>x \<in> set xs. \<forall>y \<in> set xs. R x y) \<Longrightarrow> sorted_wrt R xs"
  by (induction xs) auto

lemma sorted_wrt_blocks:
  assumes "sorted_wrt (\<lambda>c d. P (regexp c) (extent c) (regexp d) (extent d)) cs"
    and refl: "\<And>r e. P r e r e"
  shows "sorted_wrt (\<lambda>c d. P (regexp c) (extent c) (regexp d) (extent d)) (concat (map (block ks) cs))"
  using assms(1)
proof (induction cs)
  case Nil
  show ?case by simp
next
  case (Cons c cs)
  let ?R = "\<lambda>c d. P (regexp c) (extent c) (regexp d) (extent d)"
  have same: "regexp x = regexp c \<and> extent x = extent c" if "x \<in> set (block ks c)" for x
    using in_block [OF that] by simp
  have inner: "sorted_wrt ?R (block ks c)"
    by (rule sorted_wrt_all) (simp add: same refl)
  have cross: "?R x y" if "x \<in> set (block ks c)" "y \<in> set (concat (map (block ks) cs))" for x y
  proof -
    from that(2) obtain d where d: "d \<in> set cs" "y \<in> set (block ks d)"
      by auto
    from Cons.prems d(1) have "?R c d" by simp
    with same [OF that(1)] in_block [OF d(2)] show ?thesis by simp
  qed
  from Cons have "sorted_wrt ?R (concat (map (block ks) cs))"
    by simp
  with inner cross show ?case
    by (simp add: sorted_wrt_append)
qed

lemma field_loop_regexp: "c \<in> set (field_loop a rx e fs) \<Longrightarrow> regexp c = rx"
  by (auto simp: field_loop_def loop_body_def split: if_splits)

lemma extent_loop_regexp: "c \<in> set (extent_loop l a rx) \<Longrightarrow> regexp c = rx"
  by (auto simp: extent_loop_def dest: field_loop_regexp)

lemma field_loop_extent: "extent a = E_auto \<Longrightarrow> c \<in> set (field_loop a rx e fs) \<Longrightarrow> extent c = e"
  by (auto simp: field_loop_def loop_body_def split: if_splits)

lemma field_loop_fields_auto:
  "extent a = E_auto \<Longrightarrow>
   map field (field_loop a rx e fs) = filter (\<lambda>f. e = E_word \<longrightarrow> f = F_gloss) fs"
  by (induction fs) (simp_all add: field_loop_def loop_body_def)

lemma field_loop_fields_explicit:
  "extent a \<noteq> E_auto \<Longrightarrow> map field (field_loop a rx e fs) = fs"
  by (induction fs) (simp_all add: field_loop_def loop_body_def)

lemma regexp_flags_cases:
  "regexp_flags l a = [True] \<or> regexp_flags l a = [False, True] \<or> regexp_flags l a = [False]"
  by (simp add: regexp_flags_def)

lemma extent_loop_auto:
  "extent a = E_auto \<Longrightarrow>
   extent_loop l a rx = field_loop a rx E_whole (fields_seq l a)
      @ field_loop a rx E_word (fields_seq l a) @ field_loop a rx E_partial (fields_seq l a)"
  by (simp add: extent_loop_def extents_def)

lemma extent_loop_explicit:
  "extent a \<noteq> E_auto \<Longrightarrow> extent_loop l a rx = field_loop a rx (extent a) (fields_seq l a)"
  by (simp add: extent_loop_def extents_def)

lemma conditions_regexp_order: "sorted_wrt (\<lambda>c d. regexp c \<longrightarrow> regexp d) (conditions l a)"
proof -
  have one: "sorted_wrt (\<lambda>c d. regexp c \<longrightarrow> regexp d) (extent_loop l a rx)" for rx
    by (rule sorted_wrt_all) (auto dest: extent_loop_regexp)
  from regexp_flags_cases [of l a] show ?thesis
    by (auto simp: conditions_def sorted_wrt_append one dest: extent_loop_regexp)
qed

lemma sorted_wrt_append3:
  assumes "sorted_wrt R xs" "sorted_wrt R ys" "sorted_wrt R zs"
    and "\<And>x y. x \<in> set xs \<Longrightarrow> y \<in> set ys \<Longrightarrow> R x y"
    and "\<And>x z. x \<in> set xs \<Longrightarrow> z \<in> set zs \<Longrightarrow> R x z"
    and "\<And>y z. y \<in> set ys \<Longrightarrow> z \<in> set zs \<Longrightarrow> R y z"
  shows "sorted_wrt R (xs @ ys @ zs)"
  using assms by (auto simp: sorted_wrt_append)

lemma extent_loop_extent_order:
  assumes "extent a = E_auto"
  shows "sorted_wrt (\<lambda>c d. regexp c = regexp d \<longrightarrow> auto_rank (extent c) \<le> auto_rank (extent d))
           (extent_loop l a rx)"
proof -
  let ?R = "\<lambda>c d. regexp c = regexp d \<longrightarrow> auto_rank (extent c) \<le> auto_rank (extent d)"
  have ext: "extent c = e" if "c \<in> set (field_loop a rx e fs)" for c e fs
    using assms that by (rule field_loop_extent)
  have one: "sorted_wrt ?R (field_loop a rx e fs)" for e fs
    by (rule sorted_wrt_all) (simp add: ext)
  have cross: "?R x y"
    if "x \<in> set (field_loop a rx e fs)" "y \<in> set (field_loop a rx e' fs)"
      and "auto_rank e \<le> auto_rank e'" for x y e e' fs
    using that by (simp add: ext)
  have ranks: "auto_rank E_whole \<le> auto_rank E_word" "auto_rank E_word \<le> auto_rank E_partial"
    "auto_rank E_whole \<le> auto_rank E_partial"
    by (simp_all add: auto_rank_def)
  show ?thesis
    unfolding extent_loop_auto [OF assms]
  proof (rule sorted_wrt_append3)
    fix x y
    assume "x \<in> set (field_loop a rx E_whole (fields_seq l a))"
      and "y \<in> set (field_loop a rx E_word (fields_seq l a))"
    then show "?R x y" using ranks(1) by (rule cross)
  next
    fix x y
    assume "x \<in> set (field_loop a rx E_whole (fields_seq l a))"
      and "y \<in> set (field_loop a rx E_partial (fields_seq l a))"
    then show "?R x y" using ranks(3) by (rule cross)
  next
    fix x y
    assume "x \<in> set (field_loop a rx E_word (fields_seq l a))"
      and "y \<in> set (field_loop a rx E_partial (fields_seq l a))"
    then show "?R x y" using ranks(2) by (rule cross)
  qed (rule one)+
qed

lemma conditions_extent_order:
  assumes "extent a = E_auto"
  shows "sorted_wrt (\<lambda>c d. regexp c = regexp d \<longrightarrow> auto_rank (extent c) \<le> auto_rank (extent d))
           (conditions l a)"
proof -
  let ?R = "\<lambda>c d. regexp c = regexp d \<longrightarrow> auto_rank (extent c) \<le> auto_rank (extent d)"
  have cross: "?R x y" if "x \<in> set (extent_loop l a False)" "y \<in> set (extent_loop l a True)" for x y
    using that by (auto dest: extent_loop_regexp)
  from regexp_flags_cases [of l a] show ?thesis
    by (auto simp: conditions_def sorted_wrt_append extent_loop_extent_order [OF assms]
        dest: extent_loop_regexp)
qed

lemma filter_field_loop:
  assumes "extent a = E_auto"
  shows "filter (\<lambda>c. regexp c = rx \<and> extent c = e) (field_loop a rx' e' fs)
         = (if rx' = rx \<and> e' = e then field_loop a rx' e' fs else [])"
proof -
  have "regexp c = rx' \<and> extent c = e'" if "c \<in> set (field_loop a rx' e' fs)" for c
    using that field_loop_regexp field_loop_extent [OF assms] by blast
  then show ?thesis
    by (auto simp: filter_empty_conv filter_id_conv)
qed

lemma filter_extent_loop_auto:
  assumes "extent a = E_auto" and "e \<in> set (extents a)"
  shows "filter (\<lambda>c. regexp c = rx \<and> extent c = e) (extent_loop l a rx')
         = (if rx' = rx then field_loop a rx e (fields_seq l a) else [])"
proof -
  from assms have "e = E_whole \<or> e = E_word \<or> e = E_partial"
    by (auto simp: extents_def)
  then show ?thesis
    by (auto simp: extent_loop_auto [OF assms(1)] filter_field_loop [OF assms(1)])
qed

lemma filter_extent_loop:
  "filter (\<lambda>c. regexp c = rx) (extent_loop l a rx') = (if rx' = rx then extent_loop l a rx else [])"
proof -
  have "regexp c = rx'" if "c \<in> set (extent_loop l a rx')" for c
    using that by (rule extent_loop_regexp)
  then show ?thesis
    by (auto simp: filter_empty_conv filter_id_conv)
qed

lemma concat_select:
  assumes "rx \<in> set (regexp_flags l a)"
  shows "concat (map (\<lambda>rx'. if rx' = rx then xs else []) (regexp_flags l a)) = xs"
  using regexp_flags_cases [of l a] assms by auto

lemma conditions_fields_auto:
  assumes "extent a = E_auto" and "rx \<in> set (regexp_flags l a)" and "e \<in> set (extents a)"
  shows "map field (filter (\<lambda>c. regexp c = rx \<and> extent c = e) (conditions l a))
         = filter (\<lambda>f. e = E_word \<longrightarrow> f = F_gloss) (fields_seq l a)"
proof -
  have "filter (\<lambda>c. regexp c = rx \<and> extent c = e) (conditions l a)
        = concat (map (\<lambda>rx'. if rx' = rx then field_loop a rx e (fields_seq l a) else [])
                      (regexp_flags l a))"
    by (simp add: conditions_def filter_concat comp_def filter_extent_loop_auto [OF assms(1,3)])
  also have "\<dots> = field_loop a rx e (fields_seq l a)"
    using assms(2) by (rule concat_select)
  finally show ?thesis
    by (simp add: field_loop_fields_auto [OF assms(1)])
qed

lemma conditions_fields_explicit:
  assumes "extent a \<noteq> E_auto" and "rx \<in> set (regexp_flags l a)"
  shows "map field (filter (\<lambda>c. regexp c = rx) (conditions l a)) = fields_seq l a"
proof -
  have "filter (\<lambda>c. regexp c = rx) (conditions l a)
        = concat (map (\<lambda>rx'. if rx' = rx then extent_loop l a rx else []) (regexp_flags l a))"
    by (simp add: conditions_def filter_concat comp_def filter_extent_loop)
  also have "\<dots> = extent_loop l a rx"
    using assms(2) by (rule concat_select)
  finally show ?thesis
    by (simp add: extent_loop_explicit [OF assms(1)] field_loop_fields_explicit [OF assms(1)])
qed

lemma normalize_extent_auto [simp]: "(extent (normalize_extent a) = E_auto) = (extent a = E_auto)"
  by (simp add: normalize_extent_def)

lemma normalize_extent_lists [simp]:
  "regexp_flags l (normalize_extent a) = regexp_flags l a"
  "fields_seq l (normalize_extent a) = fields_seq l a"
  by (simp_all add: regexp_flags_def fields_seq_def)

section \<open>Case sensitivity\<close>

lemma has_upper_append: "has_upper (s @ t) = (has_upper s \<or> has_upper t)"
  by (auto simp: has_upper_def)

lemma has_upper_join_space: "has_upper (join_space qs) = (\<exists>s \<in> set qs. has_upper s)"
proof (induction qs rule: join_space.induct)
  case (3 s t ts)
  have sp: "has_upper (32 # u) = has_upper u" for u
    by (simp add: has_upper_def)
  from 3 show ?case by (simp add: has_upper_append sp)
qed (simp_all add: has_upper_def)

text \<open>
  Without \<^verbatim>\<open>--case-sensitive\<close> the flag derived for the query is true exactly when some
  piece of the query contains one of the letters \<open>A\<close> to \<open>Z\<close>.
\<close>

lemma case_sensitive_default:
  assumes "\<not> case_sensitive a"
  shows "case_sensitive (handle_case (set_query a qs)) = has_upper (query (set_query a qs))
       \<and> has_upper (query (set_query a qs)) = (\<exists>s \<in> set qs. has_upper s)"
  using assms by (simp add: handle_case_def set_query_def has_upper_join_space)

text \<open>
  Claim C8.  The help text of \<^verbatim>\<open>--case-sensitive\<close> (lines 38--40) says that the search is
  insensitive unless there is an uppercase letter in the query, and the claim says the
  same of every uppercase Latin letter.  The test of line 151 looks for \<open>A\<close> to \<open>Z\<close> only:
  with no option given the flag becomes true for \<^verbatim>\<open>Osaka\<close>, but for the same word written
  with the capital O with macron (U+014C) it stays false.
\<close>

theorem case_flag_misses_macron_capital:
  "case_sensitive (handle_case (set_query default_args [osaka_macron])) = False
   \<and> case_sensitive (handle_case (set_query default_args [ascii ''Osaka''])) = True"
  by (simp add: handle_case_def set_query_def default_args_def has_upper_def ascii_def
      osaka_macron_def)

section \<open>Field trial order\<close>

text \<open>
  Claim C2.  With \<^verbatim>\<open>field\<close> left at \<^verbatim>\<open>auto\<close> the fields are tried in an order that is a
  permutation of kanji, reading and gloss, chosen by the first test that succeeds:
  gloss, reading, kanji for a Latin query; reading, gloss, kanji for a query that is not
  Latin but romaji; reading, kanji, gloss for a query that is neither but kana; kanji,
  reading, gloss otherwise.  The first three generated conditions carry the fields in
  that order.
\<close>

theorem field_trial_order:
  assumes "field a = F_auto"
  shows "length (fields_seq l a) = 3 \<and> distinct (fields_seq l a)
       \<and> set (fields_seq l a) = {F_kanji, F_reading, F_gloss}
       \<and> (is_latin l (query a) \<longrightarrow> fields_seq l a = [F_gloss, F_reading, F_kanji])
       \<and> (\<not> is_latin l (query a) \<and> is_romaji l (query a) \<longrightarrow>
            fields_seq l a = [F_reading, F_gloss, F_kanji])
       \<and> (\<not> is_latin l (query a) \<and> \<not> is_romaji l (query a) \<and> is_kana l (query a) \<longrightarrow>
            fields_seq l a = [F_reading, F_kanji, F_gloss])
       \<and> (\<not> is_latin l (query a) \<and> \<not> is_romaji l (query a) \<and> \<not> is_kana l (query a) \<longrightarrow>
            fields_seq l a = [F_kanji, F_reading, F_gloss])
       \<and> map field (take 3 (conditions l (normalize_extent a))) = fields_seq l a"
proof -
  have "map field (take 3 (conditions l (normalize_extent a))) = fields_seq l a"
    using assms
    by (cases "extent a")
       (auto simp add: conditions_def extent_loop_def field_loop_def fields_seq_def extents_def regexp_flags_def loop_body_def
          normalize_extent_def)
  then show ?thesis
    using assms by (auto simp: fields_seq_def)
qed

theorem field_trial_order_witness:
  "field (default_args\<lparr>query := ascii ''cat''\<rparr>) = F_auto
   \<and> fields_seq stub_lib (default_args\<lparr>query := ascii ''cat''\<rparr>) = [F_gloss, F_reading, F_kanji]
   \<and> fields_seq stub_lib (default_args\<lparr>query := [12397, 12371]\<rparr>) = [F_reading, F_kanji, F_gloss]"
  using field_trial_order [of "default_args\<lparr>query := ascii ''cat''\<rparr>" stub_lib]
    field_trial_order [of "default_args\<lparr>query := [12397, 12371]\<rparr>" stub_lib]
  by (simp add: default_args_def stub_lib_def ascii_def macrons_def)

section \<open>Pruning of the word extent\<close>

text \<open>
  Claim C5.  When \<^verbatim>\<open>extent\<close> is \<^verbatim>\<open>auto\<close> (whatever the field, so in particular when the
  field is \<^verbatim>\<open>auto\<close> too), no generated condition, and no condition of the final list with
  the kana guesses, has extent word together with the field kanji or reading.
\<close>

theorem auto_extent_skips_word:
  assumes "extent a = E_auto"
  shows "\<exists>cs. final_conditions l a = Inr cs
           \<and> (\<forall>c \<in> set (conditions l (normalize_extent a)).
                 \<not> (extent c = E_word \<and> (field c = F_kanji \<or> field c = F_reading)))
           \<and> (\<forall>c \<in> set cs. \<not> (extent c = E_word \<and> (field c = F_kanji \<or> field c = F_reading)))"
proof -
  have gen: "\<not> (extent c = E_word \<and> (field c = F_kanji \<or> field c = F_reading))"
    if "c \<in> set (conditions l (normalize_extent a))" for c
    using that assms
    by (auto simp: conditions_def extent_loop_def field_loop_def loop_body_def extents_def normalize_extent_def split: if_splits)
  obtain ks where fin:
    "final_conditions l a = Inr (concat (map (block ks) (conditions l (normalize_extent a))))"
    using final_conditions_closed by blast
  have "\<not> (extent c = E_word \<and> (field c = F_kanji \<or> field c = F_reading))"
    if "c \<in> set (concat (map (block ks) (conditions l (normalize_extent a))))" for c
  proof -
    from that obtain c0 where c0: "c0 \<in> set (conditions l (normalize_extent a))" "c \<in> set (block ks c0)"
      by auto
    from in_block [OF c0(2)] gen [OF c0(1)] show ?thesis by simp
  qed
  with fin gen show ?thesis by blast
qed

theorem auto_extent_skips_word_witness:
  "extent (default_args\<lparr>query := ascii ''cat''\<rparr>) = E_auto
   \<and> (\<exists>cs. final_conditions stub_lib (default_args\<lparr>query := ascii ''cat''\<rparr>) = Inr cs
         \<and> (\<forall>c \<in> set (conditions stub_lib (normalize_extent (default_args\<lparr>query := ascii ''cat''\<rparr>))).
                 \<not> (extent c = E_word \<and> (field c = F_kanji \<or> field c = F_reading)))
         \<and> (\<forall>c \<in> set cs. \<not> (extent c = E_word \<and> (field c = F_kanji \<or> field c = F_reading))))"
  using auto_extent_skips_word [of "default_args\<lparr>query := ascii ''cat''\<rparr>" stub_lib]
  by (simp add: default_args_def)

section \<open>An explicit word extent on the kanji field\<close>

text \<open>
  Claim C6, as the claim states it, fails: a kanji query with a character that is
  special in regular expressions, here U+65E5 \<open>.\<close> U+8A9E, gives two conditions when
  \<^verbatim>\<open>--regexp\<close> is not set, the literal one and the regular expression.
\<close>

theorem word_kanji_counterexample:
  "final_conditions stub_lib (default_args\<lparr>field := F_kanji, extent := E_word, query := [26085, 46, 35486]\<rparr>)
   = Inr [\<lparr>field = F_kanji, query = [26085, 46, 35486], extent = E_whole, regexp = False,
            case_sensitive = False, frequent = False\<rparr>,
          \<lparr>field = F_kanji, query = [26085, 46, 35486], extent = E_whole, regexp = True,
            case_sensitive = False, frequent = False\<rparr>]"
  by (simp add: final_conditions_def romaji_conditions_def romaji_query_def conditions_def extent_loop_def field_loop_def
      fields_seq_def extents_def regexp_flags_def loop_body_def normalize_extent_def
      search_args_def cond.truncate_def default_args_def stub_lib_def ascii_def)

text \<open>
  Claim C6, amended.  With extent word and field kanji there is one condition for each
  regexp mode that is tried, all on the field kanji with the extent normalized to whole
  and the other keys as given: exactly one when \<^verbatim>\<open>--regexp\<close> is set or the query has no
  special character, and two, the literal one first, otherwise.
\<close>

theorem word_kanji_conditions:
  assumes "field a = F_kanji" and "extent a = E_word"
  shows "final_conditions l a =
           Inr (map (\<lambda>rx. \<lparr>field = F_kanji, query = query a, extent = E_whole, regexp = rx,
                           case_sensitive = case_sensitive a, frequent = frequent a\<rparr>)
                    (regexp_flags l a))
       \<and> (regexp a \<or> \<not> has_regexp_special l (query a) \<longrightarrow> length (regexp_flags l a) = 1)
       \<and> (\<not> regexp a \<and> has_regexp_special l (query a) \<longrightarrow> regexp_flags l a = [False, True])"
proof -
  let ?C = "\<lambda>rx. \<lparr>field = F_kanji, query = query a, extent = E_whole, regexp = rx,
                   case_sensitive = case_sensitive a, frequent = frequent a\<rparr>"
  have gen: "conditions l (normalize_extent a) = map ?C (regexp_flags l a)"
    using assms
    by (simp add: conditions_def extent_loop_def field_loop_def fields_seq_def extents_def regexp_flags_def loop_body_def
        normalize_extent_def search_args_def cond.truncate_def)
  have "concat (map (block ks) (map ?C (regexp_flags l a))) = map ?C (regexp_flags l a)" for ks
    by (rule concat_blocks_no_reading) simp
  with gen have "final_conditions l a = Inr (map ?C (regexp_flags l a))"
    by (simp add: final_conditions_closed)
  then show ?thesis
    by (simp add: regexp_flags_def)
qed

theorem word_kanji_conditions_witness:
  "final_conditions stub_lib (default_args\<lparr>field := F_kanji, extent := E_word, query := [29483]\<rparr>)
   = Inr [\<lparr>field = F_kanji, query = [29483], extent = E_whole, regexp = False,
            case_sensitive = False, frequent = False\<rparr>]"
  using word_kanji_conditions [of "default_args\<lparr>field := F_kanji, extent := E_word, query := [29483]\<rparr>" stub_lib]
  by (simp add: default_args_def regexp_flags_def stub_lib_def ascii_def)

section \<open>Kana guesses in front of the reading conditions\<close>

text \<open>
  For a query that passes \<^verbatim>\<open>is_romaji\<close>, with the field \<^verbatim>\<open>auto\<close> or \<^verbatim>\<open>reading\<close>, the final
  list is the generated list with, directly in front of every reading condition, its
  copies in which only the query is replaced by a kana string: first the renderings of
  all expansions by the first kana function, then those by the second, where the first
  function is hiragana for a query without a letter \<open>A\<close> to \<open>Z\<close> and katakana otherwise.
  A rendering that is equal to the query gives a copy equal to the condition itself;
  such copies stay next to the condition, behind the proper kana copies.  When no
  rendering equals the query, every kana copy is in the order of insertion and strictly
  in front of the transliterated original.
\<close>

lemma kana_guesses_before_reading:
  assumes "field a = F_auto \<or> field a = F_reading" and "is_romaji l (query a)"
  shows "let q = query a;
             first = (if has_upper q then to_katakana l else to_hiragana l);
             second = (if has_upper q then to_hiragana l else to_katakana l);
             ks = map first (expand_romaji l q) @ map second (expand_romaji l q)
         in final_conditions l a =
              Inr (concat (map (\<lambda>c. if field c = F_reading
                                     then map (\<lambda>k. c\<lparr>query := k\<rparr>) (filter (\<lambda>k. k \<noteq> q) ks)
                                          @ replicate (length (filter (\<lambda>k. k = q) ks)) c @ [c]
                                     else [c])
                               (conditions l (normalize_extent a))))
          \<and> ((\<forall>k \<in> set ks. k \<noteq> q) \<longrightarrow>
               final_conditions l a =
                 Inr (concat (map (\<lambda>c. if field c = F_reading
                                        then map (\<lambda>k. c\<lparr>query := k\<rparr>) ks @ [c] else [c])
                                  (conditions l (normalize_extent a)))))"
proof -
  define q where "q = query a"
  define ks where "ks = kana_strings l (kana_guess l (normalize_extent a)) q"
  have trig: "romaji_query l a"
    using assms by (simp add: romaji_query_def)
  have ks: "ks = map (if has_upper q then to_katakana l else to_hiragana l) (expand_romaji l q)
              @ map (if has_upper q then to_hiragana l else to_katakana l) (expand_romaji l q)"
    by (simp add: ks_def q_def kana_strings_def kana_guess_def)
  have blk: "block ks c =
      (if field c = F_reading
       then map (\<lambda>k. c\<lparr>query := k\<rparr>) (filter (\<lambda>k. k \<noteq> q) ks)
            @ replicate (length (filter (\<lambda>k. k = q) ks)) c @ [c]
       else [c])" if "c \<in> set (conditions l (normalize_extent a))" for c
    using conditions_query [OF that] by (simp add: block_def q_def)
  have fin: "final_conditions l a =
      Inr (concat (map (\<lambda>c. if field c = F_reading
                             then map (\<lambda>k. c\<lparr>query := k\<rparr>) (filter (\<lambda>k. k \<noteq> q) ks)
                                  @ replicate (length (filter (\<lambda>k. k = q) ks)) c @ [c]
                             else [c])
                       (conditions l (normalize_extent a))))"
    using trig blk by (simp add: final_conditions_closed ks_def q_def cong: map_cong)
  have plain: "final_conditions l a =
      Inr (concat (map (\<lambda>c. if field c = F_reading
                             then map (\<lambda>k. c\<lparr>query := k\<rparr>) ks @ [c] else [c])
                       (conditions l (normalize_extent a))))" if "\<forall>k \<in> set ks. k \<noteq> q"
  proof -
    have "(\<lambda>c::cond. if field c = F_reading
                    then map (\<lambda>k. c\<lparr>query := k\<rparr>) (filter (\<lambda>k. k \<noteq> q) ks)
                         @ replicate (length (filter (\<lambda>k. k = q) ks)) c @ [c]
                    else [c])
        = (\<lambda>c. if field c = F_reading then map (\<lambda>k. c\<lparr>query := k\<rparr>) ks @ [c] else [c])"
      using that by (intro ext) simp
    with fin show ?thesis by simp
  qed
  from fin plain show ?thesis
    unfolding Let_def ks [symmetric] q_def [symmetric] by blast
qed

text \<open>
  Claim C7.  The kana copies are inserted as the claim says, but the test of line 287
  that chooses katakana first looks for \<open>A\<close> to \<open>Z\<close> only, the same test as in line 151.
  For \<^verbatim>\<open>Osaka\<close> written with the capital O with macron (U+014C), a query with an
  uppercase letter, the hiragana renderings are inserted first and the katakana
  renderings second; for \<^verbatim>\<open>Osaka\<close> in ASCII the katakana function comes first.
\<close>

theorem kana_order_misses_macron_capital:
  assumes "field a = F_auto \<or> field a = F_reading" and "is_romaji l osaka_macron"
    and "query a = osaka_macron"
  shows "kana_guess l (normalize_extent a) = [to_hiragana l, to_katakana l]
       \<and> final_conditions l a =
           Inr (concat (map (\<lambda>c. if field c = F_reading
                   then map (\<lambda>k. c\<lparr>query := k\<rparr>)
                          (filter (\<lambda>k. k \<noteq> osaka_macron)
                             (map (to_hiragana l) (expand_romaji l osaka_macron)
                              @ map (to_katakana l) (expand_romaji l osaka_macron)))
                        @ replicate (length (filter (\<lambda>k. k = osaka_macron)
                             (map (to_hiragana l) (expand_romaji l osaka_macron)
                              @ map (to_katakana l) (expand_romaji l osaka_macron)))) c
                        @ [c]
                   else [c])
                 (conditions l (normalize_extent a))))
       \<and> kana_guess l (normalize_extent (a\<lparr>query := ascii ''Osaka''\<rparr>))
           = [to_katakana l, to_hiragana l]"
proof -
  have low: "\<not> has_upper osaka_macron"
    by (simp add: has_upper_def osaka_macron_def)
  have up: "has_upper (ascii ''Osaka'')"
    by (simp add: has_upper_def ascii_def)
  from assms(1,2) have "is_romaji l (query a)" and f: "field a = F_auto \<or> field a = F_reading"
    by (simp_all add: assms(3))
  from kana_guesses_before_reading [OF f this(1)] low show ?thesis
    by (simp add: Let_def assms(3) kana_guess_def up)
qed

theorem kana_order_misses_macron_capital_witness:
  "final_conditions stub_lib (default_args\<lparr>field := F_reading, extent := E_whole, query := osaka_macron\<rparr>)
   = Inr [\<lparr>field = F_reading, query = [332, 12371, 12353, 12363, 12353], extent = E_whole,
            regexp = False, case_sensitive = False, frequent = False\<rparr>,
          \<lparr>field = F_reading, query = [332, 12467, 12449, 12459, 12449], extent = E_whole,
            regexp = False, case_sensitive = False, frequent = False\<rparr>,
          \<lparr>field = F_reading, query = osaka_macron, extent = E_whole,
            regexp = False, case_sensitive = False, frequent = False\<rparr>]"
  using kana_order_misses_macron_capital
    [of "default_args\<lparr>field := F_reading, extent := E_whole, query := osaka_macron\<rparr>" stub_lib]
  by (simp add: default_args_def stub_lib_def macrons_def osaka_macron_def conditions_def
      extent_loop_def field_loop_def fields_seq_def extents_def regexp_flags_def loop_body_def
      normalize_extent_def search_args_def cond.truncate_def ascii_def)

section \<open>The insertion keeps the generated conditions\<close>

text \<open>
  Claim C10.  The insertion of kana guesses never fails and only adds conditions: the
  generated list is a subsequence of the final list, so every generated condition is
  still there, unchanged and in the same relative order; when the guard of line 285 is
  false the final list is the generated list.
\<close>

theorem expansion_only_inserts:
  "\<exists>cs. final_conditions l a = Inr cs
       \<and> subseq (conditions l (normalize_extent a)) cs
       \<and> (\<not> ((field a = F_auto \<or> field a = F_reading) \<and> is_romaji l (query a)) \<longrightarrow>
            cs = conditions l (normalize_extent a))"
proof -
  have "concat (map (block []) cs) = cs" for cs
    by (induction cs) (simp_all add: block_Nil)
  then show ?thesis
    by (simp add: final_conditions_closed subseq_blocks romaji_query_def)
qed

theorem expansion_only_inserts_witness:
  "(\<exists>cs. final_conditions stub_lib (default_args\<lparr>query := ascii ''neko''\<rparr>) = Inr cs
         \<and> subseq (conditions stub_lib (normalize_extent (default_args\<lparr>query := ascii ''neko''\<rparr>))) cs)
   \<and> final_conditions stub_lib (default_args\<lparr>query := [29483]\<rparr>)
       = Inr (conditions stub_lib (normalize_extent (default_args\<lparr>query := [29483]\<rparr>)))"
  using expansion_only_inserts [of stub_lib "default_args\<lparr>query := ascii ''neko''\<rparr>"]
    expansion_only_inserts [of stub_lib "default_args\<lparr>query := [29483]\<rparr>"]
  by (auto simp add: default_args_def stub_lib_def macrons_def)

section \<open>The match cascade\<close>

text \<open>
  Claim C1.  The cascade calls the matcher on the conditions in list order, once each,
  up to and including the first one with a non-empty result, and returns that condition
  with its result; no later condition is evaluated.  When every condition gives an
  empty result, all of them are tried once and the outcome is none with the empty
  sequence.
\<close>

theorem guess_first_match:
  "((\<forall>c' \<in> set pre. matcher c' = Inr []) \<and> matcher c = Inr ids \<and> ids \<noteq> [] \<longrightarrow>
      guess matcher (pre @ c # post) = (pre @ [c], Inr (Some c, ids)))
   \<and> ((\<forall>c' \<in> set cs. matcher c' = Inr []) \<longrightarrow> guess matcher cs = (cs, Inr (None, [])))"
  by (simp add: guess_all_empty guess_skip_empty)

theorem guess_first_match_witness:
  "guess (\<lambda>c. if field c = F_reading then Inr [7::nat] else (Inr [] :: unit + nat list))
     (conditions stub_lib (default_args\<lparr>query := ascii ''cat''\<rparr>))
   = ([\<lparr>field = F_gloss, query = ascii ''cat'', extent = E_whole, regexp = False,
          case_sensitive = False, frequent = False\<rparr>,
       \<lparr>field = F_reading, query = ascii ''cat'', extent = E_whole, regexp = False,
          case_sensitive = False, frequent = False\<rparr>],
      Inr (Some \<lparr>field = F_reading, query = ascii ''cat'', extent = E_whole, regexp = False,
                 case_sensitive = False, frequent = False\<rparr>, [7]))
   \<and> guess (\<lambda>c. (Inr [] :: unit + nat list)) (conditions stub_lib (default_args\<lparr>query := ascii ''cat''\<rparr>))
     = (conditions stub_lib (default_args\<lparr>query := ascii ''cat''\<rparr>), Inr (None, []))"
  using guess_first_match
    [of "[\<lparr>field = F_gloss, query = ascii ''cat'', extent = E_whole, regexp = False,
           case_sensitive = False, frequent = False\<rparr>]"
        "\<lambda>c. if field c = F_reading then Inr [7::nat] else (Inr [] :: unit + nat list)"
        "\<lparr>field = F_reading, query = ascii ''cat'', extent = E_whole, regexp = False,
          case_sensitive = False, frequent = False\<rparr>"
        "[7]"
        "drop 2 (conditions stub_lib (default_args\<lparr>query := ascii ''cat''\<rparr>))"
        "conditions stub_lib (default_args\<lparr>query := ascii ''cat''\<rparr>)"]
    guess_first_match
    [of "[]" "\<lambda>c. (Inr [] :: unit + nat list)"
        "\<lparr>field = F_reading, query = ascii ''cat'', extent = E_whole, regexp = False,
          case_sensitive = False, frequent = False\<rparr>" "[]" "[]"
        "conditions stub_lib (default_args\<lparr>query := ascii ''cat''\<rparr>)"]
  by (simp add: default_args_def stub_lib_def ascii_def conditions_def extent_loop_def field_loop_def
      fields_seq_def extents_def regexp_flags_def loop_body_def
      search_args_def cond.truncate_def)

section \<open>No match is not a failure\<close>

text \<open>
  Claim C9.  When \<^verbatim>\<open>run\<close> gets as far as the cascade (configuration and database are
  there, no short command was asked for, the query is not empty), the list of conditions
  is built without an exception; if \<^verbatim>\<open>search.guess\<close> then reports no winning condition,
  \<^verbatim>\<open>run\<close> returns \<^verbatim>\<open>None\<close>, and an exception raised inside the cascade leaves \<^verbatim>\<open>run\<close> as
  that exception, which is a different outcome.
\<close>

theorem no_match_returns_None:
  assumes "config_found env" and "opendb_ok env (case_sensitive (handle_case (set_query parsed qs)))"
    and "\<not> version parsed" and "\<not> list_abbrevs parsed" and "\<not> truthy (abbrev parsed)"
    and "join_space qs \<noteq> []"
  shows "\<exists>conds. final_conditions l (handle_case (set_query parsed qs)) = Inr conds
          \<and> (\<forall>ids. search_guess env conds = Inr (None, ids) \<longrightarrow> run l env parsed qs = Returned None)
          \<and> (\<forall>e. search_guess env conds = Inl e \<longrightarrow> run l env parsed qs = Raised (Inr e))"
proof -
  let ?a = "handle_case (set_query parsed qs)"
  have flags: "version ?a = version parsed" "list_abbrevs ?a = list_abbrevs parsed"
    "abbrev ?a = abbrev parsed" "query ?a = join_space qs"
    by (simp_all add: handle_case_def set_query_def)
  obtain conds where conds: "final_conditions l ?a = Inr conds"
    by (simp add: final_conditions_closed)
  show ?thesis
    using assms conds flags
    by (auto simp: run_def Let_def split: option.splits)
qed

theorem no_match_returns_None_witness:
  "run stub_lib stub_env default_args [ascii ''cat''] = Returned None"
  using no_match_returns_None [of stub_env default_args "[ascii ''cat'']" stub_lib]
  by (auto simp add: stub_env_def default_args_def truthy_def ascii_def)

section \<open>Nesting of the generation loops\<close>

text \<open>
  Claim C4.  The list is built without an exception, and in the generated list as well
  as in the final list no regexp condition is followed by a literal one, so that every
  literal condition precedes every regexp condition.  With the extent \<^verbatim>\<open>auto\<close>, within
  one regexp mode the extents never go back in the order whole, word, partial, and the
  conditions of one mode and one extent carry the fields in trial order (for word only
  gloss): all fields of an extent come before the next extent.  With an explicit extent
  each regexp mode has a single pass with one condition for each field, in trial order.
\<close>

theorem generation_order:
  "\<exists>cs. final_conditions l a = Inr cs
       \<and> sorted_wrt (\<lambda>c d. regexp c \<longrightarrow> regexp d) (conditions l (normalize_extent a))
       \<and> sorted_wrt (\<lambda>c d. regexp c \<longrightarrow> regexp d) cs
       \<and> (extent a = E_auto \<longrightarrow>
            sorted_wrt (\<lambda>c d. regexp c = regexp d \<longrightarrow> auto_rank (extent c) \<le> auto_rank (extent d))
              (conditions l (normalize_extent a))
          \<and> sorted_wrt (\<lambda>c d. regexp c = regexp d \<longrightarrow> auto_rank (extent c) \<le> auto_rank (extent d)) cs
          \<and> (\<forall>rx \<in> set (regexp_flags l a). \<forall>e \<in> {E_whole, E_word, E_partial}.
                map field (filter (\<lambda>c. regexp c = rx \<and> extent c = e) (conditions l (normalize_extent a)))
                = filter (\<lambda>f. e = E_word \<longrightarrow> f = F_gloss) (fields_seq l a)))
       \<and> (extent a \<noteq> E_auto \<longrightarrow>
            (\<forall>rx \<in> set (regexp_flags l a).
                map field (filter (\<lambda>c. regexp c = rx) (conditions l (normalize_extent a)))
                = fields_seq l a))"
proof -
  let ?a = "normalize_extent a"
  let ?A = "\<lambda>c d. regexp c \<longrightarrow> regexp d"
  let ?B = "\<lambda>c d. regexp c = regexp d \<longrightarrow> auto_rank (extent c) \<le> auto_rank (extent d)"
  obtain ks where fin: "final_conditions l a = Inr (concat (map (block ks) (conditions l ?a)))"
    by (simp add: final_conditions_closed)
  have a1: "sorted_wrt ?A (conditions l ?a)"
    by (rule conditions_regexp_order)
  have a2: "sorted_wrt ?A (concat (map (block ks) (conditions l ?a)))"
    using a1 by (rule sorted_wrt_blocks [where P = "\<lambda>r e r' e'. r \<longrightarrow> r'"]) simp
  have b1: "sorted_wrt ?B (conditions l ?a)" if "extent a = E_auto"
    using that by (intro conditions_extent_order) simp
  have b2: "sorted_wrt ?B (concat (map (block ks) (conditions l ?a)))" if "extent a = E_auto"
    using b1 [OF that]
    by (rule sorted_wrt_blocks [where P = "\<lambda>r e r' e'. r = r' \<longrightarrow> auto_rank e \<le> auto_rank e'"]) simp
  have c1: "map field (filter (\<lambda>c. regexp c = rx \<and> extent c = e) (conditions l ?a))
            = filter (\<lambda>f. e = E_word \<longrightarrow> f = F_gloss) (fields_seq l a)"
    if "extent a = E_auto" "rx \<in> set (regexp_flags l a)" "e \<in> {E_whole, E_word, E_partial}" for rx e
    using conditions_fields_auto [of ?a rx l e] that by (auto simp: extents_def)
  have c2: "map field (filter (\<lambda>c. regexp c = rx) (conditions l ?a)) = fields_seq l a"
    if "extent a \<noteq> E_auto" "rx \<in> set (regexp_flags l a)" for rx
    using conditions_fields_explicit [of ?a rx l] that by simp
  from fin a1 a2 b1 b2 c1 c2 show ?thesis by blast
qed

theorem generation_order_witness:
  "extent (default_args\<lparr>query := ascii ''a.b''\<rparr>) = E_auto
   \<and> regexp_flags stub_lib (default_args\<lparr>query := ascii ''a.b''\<rparr>) = [False, True]
   \<and> (\<exists>cs. final_conditions stub_lib (default_args\<lparr>query := ascii ''a.b''\<rparr>) = Inr cs
          \<and> sorted_wrt (\<lambda>c d. regexp c \<longrightarrow> regexp d) cs
          \<and> sorted_wrt (\<lambda>c d. regexp c = regexp d \<longrightarrow> auto_rank (extent c) \<le> auto_rank (extent d)) cs)
   \<and> map field (filter (\<lambda>c. regexp c = True \<and> extent c = E_word)
        (conditions stub_lib (normalize_extent (default_args\<lparr>query := ascii ''a.b''\<rparr>)))) = [F_gloss]
   \<and> map field (filter (\<lambda>c. regexp c = False \<and> extent c = E_partial)
        (conditions stub_lib (normalize_extent (default_args\<lparr>query := ascii ''a.b''\<rparr>))))
      = [F_gloss, F_reading, F_kanji]"
proof -
  have flags: "regexp_flags stub_lib (default_args\<lparr>query := ascii ''a.b''\<rparr>) = [False, True]"
    by (simp add: regexp_flags_def default_args_def stub_lib_def ascii_def)
  have fs: "fields_seq stub_lib (default_args\<lparr>query := ascii ''a.b''\<rparr>) = [F_gloss, F_reading, F_kanji]"
    by (simp add: fields_seq_def default_args_def stub_lib_def ascii_def)
  have auto: "extent (default_args\<lparr>query := ascii ''a.b''\<rparr>) = E_auto"
    by (simp add: default_args_def)
  from generation_order [of stub_lib "default_args\<lparr>query := ascii ''a.b''\<rparr>"] flags fs auto
  show ?thesis by auto
qed

section \<open>The query \<^verbatim>\<open>cat\<close>\<close>

text \<open>
  Claim C3, as the claim states it, fails: for \<^verbatim>\<open>cat\<close> with field and extent \<^verbatim>\<open>auto\<close> the
  condition tried after gloss with extent whole is a reading condition with extent whole
  (here a kana guess), and gloss with extent word is only the fourth of the generated
  conditions, behind reading and kanji with extent whole.
\<close>

theorem cat_counterexample:
  "map_sum id (take 3) (final_conditions stub_lib (default_args\<lparr>query := ascii ''cat''\<rparr>))
   = Inr [\<lparr>field = F_gloss, query = ascii ''cat'', extent = E_whole, regexp = False,
            case_sensitive = False, frequent = False\<rparr>,
          \<lparr>field = F_reading, query = to_hiragana stub_lib (ascii ''cat''), extent = E_whole,
            regexp = False, case_sensitive = False, frequent = False\<rparr>,
          \<lparr>field = F_reading, query = to_katakana stub_lib (ascii ''cat''), extent = E_whole,
            regexp = False, case_sensitive = False, frequent = False\<rparr>]
  \<and> map field (conditions stub_lib (normalize_extent (default_args\<lparr>query := ascii ''cat''\<rparr>)))
     = [F_gloss, F_reading, F_kanji, F_gloss, F_gloss, F_reading, F_kanji]
  \<and> map extent (conditions stub_lib (normalize_extent (default_args\<lparr>query := ascii ''cat''\<rparr>)))
     = [E_whole, E_whole, E_whole, E_word, E_partial, E_partial, E_partial]"
  by (simp add: final_conditions_closed romaji_query_def kana_strings_def kana_guess_def
      block_def has_upper_def conditions_def extent_loop_def field_loop_def
      fields_seq_def extents_def regexp_flags_def loop_body_def normalize_extent_def
      search_args_def cond.truncate_def default_args_def stub_lib_def ascii_def macrons_def)

text \<open>
  Claim C3, amended.  For the query \<^verbatim>\<open>cat\<close>, classified as Latin, with field and extent
  \<^verbatim>\<open>auto\<close> and \<^verbatim>\<open>--regexp\<close> not set, the conditions are exactly these, in this order:
  gloss with extent whole; if the query also counts as romaji, the kana guesses for
  reading with extent whole (the hiragana renderings of the expansions of \<^verbatim>\<open>cat\<close>, then
  the katakana renderings; a rendering equal to \<^verbatim>\<open>cat\<close> gives a copy of the literal
  condition, put behind the others); reading, then kanji with extent whole; gloss with
  extent word; gloss with extent partial; the kana guesses for reading with extent
  partial; reading, then kanji with extent partial; and, if the query has a special
  character, the same sequence once more as regexp conditions.
\<close>

theorem cat_conditions:
  assumes "field a = F_auto" and "extent a = E_auto" and "\<not> regexp a"
    and "query a = ascii ''cat''" and "is_latin l (ascii ''cat'')"
  shows "let C = (\<lambda>rx f e q. \<lparr>field = f, query = q, extent = e, regexp = rx,
                              case_sensitive = case_sensitive a, frequent = frequent a\<rparr>);
             cat = ascii ''cat'';
             ks = (if is_romaji l cat
                   then map (to_hiragana l) (expand_romaji l cat) @ map (to_katakana l) (expand_romaji l cat)
                   else []);
             guesses = (\<lambda>rx e. map (C rx F_reading e) (filter (\<lambda>k. k \<noteq> cat) ks)
                                @ replicate (length (filter (\<lambda>k. k = cat) ks)) (C rx F_reading e cat));
             pass = (\<lambda>rx. [C rx F_gloss E_whole cat] @ guesses rx E_whole @
                           [C rx F_reading E_whole cat, C rx F_kanji E_whole cat,
                            C rx F_gloss E_word cat, C rx F_gloss E_partial cat] @
                           guesses rx E_partial @
                           [C rx F_reading E_partial cat, C rx F_kanji E_partial cat])
         in final_conditions l a =
              Inr (pass False @ (if has_regexp_special l cat then pass True else []))"
proof -
  define C where "C = (\<lambda>rx f e q. \<lparr>field = f, query = q, extent = e, regexp = rx,
                              case_sensitive = case_sensitive a, frequent = frequent a\<rparr>)"
  define cat where "cat = ascii ''cat''"
  define ks where "ks = (if is_romaji l cat
      then map (to_hiragana l) (expand_romaji l cat) @ map (to_katakana l) (expand_romaji l cat)
      else [])"
  define guesses where "guesses = (\<lambda>rx e. map (C rx F_reading e) (filter (\<lambda>k. k \<noteq> cat) ks)
                                @ replicate (length (filter (\<lambda>k. k = cat) ks)) (C rx F_reading e cat))"
  define pass where "pass = (\<lambda>rx. [C rx F_gloss E_whole cat] @ guesses rx E_whole @
                           [C rx F_reading E_whole cat, C rx F_kanji E_whole cat,
                            C rx F_gloss E_word cat, C rx F_gloss E_partial cat] @
                           guesses rx E_partial @
                           [C rx F_reading E_partial cat, C rx F_kanji E_partial cat])"
  have norm: "normalize_extent a = a"
    using assms by (simp add: normalize_extent_def)
  have q: "query a = cat"
    using assms by (simp add: cat_def)
  have low: "\<not> has_upper cat"
    by (simp add: cat_def has_upper_def ascii_def)
  have ks': "(if romaji_query l a then kana_strings l (kana_guess l a) (query a) else []) = ks"
    using assms(1) q low by (simp add: romaji_query_def kana_strings_def kana_guess_def ks_def)
  have fc: "final_conditions l a = Inr (concat (map (block ks) (conditions l a)))"
  proof -
    have "final_conditions l a =
        Inr (concat (map (block (if romaji_query l a
                                 then kana_strings l (kana_guess l a) (query a) else []))
                         (conditions l a)))"
      using final_conditions_closed [of l a] by (simp only: norm)
    then show ?thesis by (simp only: ks')
  qed
  have sa: "(search_args a)\<lparr>extent := e, field := f, regexp := rx\<rparr> = C rx f e cat" for e f rx
    using q by (simp add: search_args_def cond.truncate_def C_def)
  have loop: "extent_loop l a rx =
      [C rx F_gloss E_whole cat, C rx F_reading E_whole cat, C rx F_kanji E_whole cat,
       C rx F_gloss E_word cat, C rx F_gloss E_partial cat, C rx F_reading E_partial cat,
       C rx F_kanji E_partial cat]" for rx
    using assms q
    by (simp add: extent_loop_def field_loop_def loop_body_def extents_def fields_seq_def sa)
  have gen: "conditions l a = extent_loop l a False
      @ (if has_regexp_special l cat then extent_loop l a True else [])"
    using assms q by (simp add: conditions_def regexp_flags_def)
  have upd: "C rx f e cat\<lparr>query := k\<rparr> = C rx f e k" for rx f e k
    by (simp add: C_def)
  have blk_r: "block ks (C rx F_reading e cat) = guesses rx e @ [C rx F_reading e cat]" for rx e
  proof -
    have "(\<lambda>k. C rx F_reading e cat\<lparr>query := k\<rparr>) = C rx F_reading e"
      by (intro ext) (rule upd)
    moreover have "field (C rx F_reading e cat) = F_reading" "query (C rx F_reading e cat) = cat"
      by (simp_all add: C_def)
    ultimately show ?thesis
      by (simp add: block_def guesses_def)
  qed
  have blk_o: "block ks (C rx F_gloss e cat) = [C rx F_gloss e cat]"
    "block ks (C rx F_kanji e cat) = [C rx F_kanji e cat]" for rx e
    by (simp_all add: block_def C_def)
  have one: "concat (map (block ks) (extent_loop l a rx)) = pass rx" for rx
    by (simp add: loop blk_r blk_o pass_def)
  have "final_conditions l a =
      Inr (pass False @ (if has_regexp_special l cat then pass True else []))"
    by (simp add: fc gen one)
  then show ?thesis
    unfolding Let_def pass_def guesses_def ks_def C_def cat_def .
qed

theorem cat_conditions_witness:
  "final_conditions stub_lib (default_args\<lparr>query := ascii ''cat''\<rparr>)
   = Inr [\<lparr>field = F_gloss, query = ascii ''cat'', extent = E_whole, regexp = False,
            case_sensitive = False, frequent = False\<rparr>,
          \<lparr>field = F_reading, query = [12355, 12353, 12372], extent = E_whole, regexp = False,
            case_sensitive = False, frequent = False\<rparr>,
          \<lparr>field = F_reading, query = [12451, 12449, 12468], extent = E_whole, regexp = False,
            case_sensitive = False, frequent = False\<rparr>,
          \<lparr>field = F_reading, query = ascii ''cat'', extent = E_whole, regexp = False,
            case_sensitive = False, frequent = False\<rparr>,
          \<lparr>field = F_kanji, query = ascii ''cat'', extent = E_whole, regexp = False,
            case_sensitive = False, frequent = False\<rparr>,
          \<lparr>field = F_gloss, query = ascii ''cat'', extent = E_word, regexp = False,
            case_sensitive = False, frequent = False\<rparr>,
          \<lparr>field = F_gloss, query = ascii ''cat'', extent = E_partial, regexp = False,
            case_sensitive = False, frequent = False\<rparr>,
          \<lparr>field = F_reading, query = [12355, 12353, 12372], extent = E_partial, regexp = False,
            case_sensitive = False, frequent = False\<rparr>,
          \<lparr>field = F_reading, query = [12451, 12449, 12468], extent = E_partial, regexp = False,
            case_sensitive = False, frequent = False\<rparr>,
          \<lparr>field = F_reading, query = ascii ''cat'', extent = E_partial, regexp = False,
            case_sensitive = False, frequent = False\<rparr>,
          \<lparr>field = F_kanji, query = ascii ''cat'', extent = E_partial, regexp = False,
            case_sensitive = False, frequent = False\<rparr>]"
  using cat_conditions [of "default_args\<lparr>query := ascii ''cat''\<rparr>" stub_lib]
  by (simp add: Let_def default_args_def stub_lib_def ascii_def macrons_def)

end
